theory Spec2Isabelle
  imports Main
begin

section \<open>Numbers, arrays and lists of the host language\<close>

text \<open>
  The tables of \<^verbatim>\<open>src/lib/hashtables.ts\<close> compute with JavaScript numbers. The model
  covers integer-valued numbers, on which the arithmetic of the source is exact, and
  writes them as \<^typ>\<open>int\<close>. Strict equality \<^verbatim>\<open>===\<close> on keys is HOL equality; NaN, the one
  value that \<^verbatim>\<open>===\<close> does not hold equal to itself, is not a value of the model.

  The remainder operator \<^verbatim>\<open>%\<close> truncates towards zero: the result has the sign of the
  dividend. With a zero divisor JavaScript yields NaN; \<open>js_rem\<close> is only used where the
  divisor is known to be non-zero, and \<open>mod_js\<close> writes the NaN case out as \<open>None\<close>.
\<close>

definition js_rem :: "int \<Rightarrow> int \<Rightarrow> int" where
  "js_rem a b = sgn a * (\<bar>a\<bar> mod \<bar>b\<bar>)"

text \<open>\<^verbatim>\<open>function mod(nmb, modulus) { return (nmb % modulus + modulus) % modulus; }\<close>\<close>

definition mod_js :: "int \<Rightarrow> int \<Rightarrow> int option" where
  "mod_js nmb modulus =
     (if modulus = 0 then None
      else Some (js_rem (js_rem nmb modulus + modulus) modulus))"

text \<open>
  A JavaScript array has a length and a value at every property index; an index that
  was never written reads as \<^verbatim>\<open>undefined\<close>. Reading never fails. Writing at a
  non-negative index at or beyond the length extends the array; writing at a negative
  index stores a property and leaves the length alone.
\<close>

record 'a js_array =
  len :: nat
  elems :: "int \<Rightarrow> 'a"

definition new_Array :: "nat \<Rightarrow> 'a \<Rightarrow> 'a js_array" where
  \<comment> \<open>\<^verbatim>\<open>new Array(size)\<close>; the second argument is the type's \<^verbatim>\<open>undefined\<close>.\<close>
  "new_Array sz undef = \<lparr>len = sz, elems = (\<lambda>_. undef)\<rparr>"

definition arr_get :: "'a js_array \<Rightarrow> int \<Rightarrow> 'a" where
  "arr_get a i = elems a i"

definition arr_set :: "'a js_array \<Rightarrow> int \<Rightarrow> 'a \<Rightarrow> 'a js_array" where
  "arr_set a i v =
     \<lparr>len = (if 0 \<le> i \<and> int (len a) \<le> i then nat i + 1 else len a),
      elems = (elems a)(i := v)\<rparr>"

text \<open>
  Modelled from the spec: the list library \<^verbatim>\<open>./list\<close> that the tables import is not
  among the sources. Its \<^verbatim>\<open>List<T>\<close> is the immutable ordered sequence of section 1 of
  the specification ("prepend", "scan for matching head", "filter/rebuild"), here a HOL
  list: \<^verbatim>\<open>null\<close> is \<open>[]\<close>, \<^verbatim>\<open>pair(x, xs)\<close> is \<open>x # xs\<close>, a \<^verbatim>\<open>Pair<K, V>\<close> is a HOL
  pair with \<^verbatim>\<open>head\<close> and \<^verbatim>\<open>tail\<close> as \<open>fst\<close> and \<open>snd\<close>, \<^verbatim>\<open>map\<close> and \<^verbatim>\<open>filter\<close> are the
  list functions of the same name, \<^verbatim>\<open>flatten\<close> is \<open>concat\<close>, and \<^verbatim>\<open>build_list(f, n)\<close> is
  the list of \<open>f 0, \<dots>, f (n - 1)\<close>.
\<close>

definition build_list :: "(nat \<Rightarrow> 'a) \<Rightarrow> nat \<Rightarrow> 'a list" where
  "build_list f n = map f [0..<n]"

definition flatten :: "'a list list \<Rightarrow> 'a list" where
  "flatten xss = concat xss"


section \<open>The chaining hash table\<close>

text \<open>
  \<^verbatim>\<open>ChainingHashtable<K, V>\<close>: an array of chains and the hash function. The type of
  values does not contain \<^verbatim>\<open>undefined\<close> (the source's invariant), so a result of type
  \<^verbatim>\<open>V | undefined\<close> is a \<^typ>\<open>'v option\<close>. The bucket index is always
  \<open>mod_js (hash key) (length arr)\<close>, which is inside the array when there is a bucket
  at all, so the array of chains is a list.
\<close>

record ('k, 'v) ChainingHashtable =
  arr :: "('k \<times> 'v) list list"
  ch_hash :: "'k \<Rightarrow> int"

definition ch_empty :: "nat \<Rightarrow> ('k \<Rightarrow> int) \<Rightarrow> ('k, 'v) ChainingHashtable" where
  "ch_empty sz h = \<lparr>arr = replicate sz [], ch_hash = h\<rparr>"

fun scan :: "('k \<times> 'v) list \<Rightarrow> 'k \<Rightarrow> 'v option" where
  "scan [] key = None"
| "scan (kv # xs) key = (if key = fst kv then Some (snd kv) else scan xs key)"


definition ch_insert ::
  "('k, 'v) ChainingHashtable \<Rightarrow> 'k \<Rightarrow> 'v \<Rightarrow> (bool \<times> ('k, 'v) ChainingHashtable) option" where
  "ch_insert t key v =
     (case mod_js (ch_hash t key) (int (length (arr t))) of
        None \<Rightarrow> None
      | Some index \<Rightarrow>
          (if scan (arr t ! nat index) key = None
           then Some (False, t\<lparr>arr := (arr t)[nat index := (key, v) # arr t ! nat index]\<rparr>)
           else Some (True, t\<lparr>arr := (arr t)[nat index :=
                  map (\<lambda>kv. if key = fst kv then (key, v) else kv) (arr t ! nat index)]\<rparr>)))"

definition ch_delete ::
  "('k, 'v) ChainingHashtable \<Rightarrow> 'k \<Rightarrow> (bool \<times> ('k, 'v) ChainingHashtable) option" where
  "ch_delete t key =
     (case mod_js (ch_hash t key) (int (length (arr t))) of
        None \<Rightarrow> None
      | Some index \<Rightarrow>
          (if scan (arr t ! nat index) key = None
           then Some (False, t)
           else Some (True, t\<lparr>arr := (arr t)[nat index :=
                  filter (\<lambda>kv. fst kv \<noteq> key) (arr t ! nat index)]\<rparr>)))"

definition ch_keys :: "('k, 'v) ChainingHashtable \<Rightarrow> 'k list" where
  "ch_keys tab = map fst (flatten (build_list (\<lambda>i. arr tab ! i) (length (arr tab))))"


section \<open>The probing hash table\<close>

text \<open>
  A slot of the key array is \<^verbatim>\<open>undefined\<close> (never used), \<^verbatim>\<open>null\<close> (deleted) or a key; the
  key type contains neither \<^verbatim>\<open>null\<close> nor \<^verbatim>\<open>undefined\<close> (the source's invariant). A slot
  of the value array is \<^verbatim>\<open>undefined\<close> or a value.
\<close>

datatype 'k slot = Undefined | Null | Key 'k

record ('k, 'v) ProbingHashtable =
  keys :: "'k slot js_array"
  "values" :: "'v option js_array"
  hash :: "'k \<Rightarrow> int"
  entries :: int

definition ph_empty :: "nat \<Rightarrow> ('k \<Rightarrow> int) \<Rightarrow> ('k, 'v) ProbingHashtable" where
  "ph_empty sz hash_function =
     \<lparr>keys = new_Array sz Undefined,
      values = new_Array sz None,
      hash = hash_function,
      entries = 0\<rparr>"

text \<open>
  The loop of \<^verbatim>\<open>probe\<close>, from its counter \<open>i\<close> on. The remainder is only taken inside
  the loop, where the length is positive.
\<close>

function probe_loop :: "'k slot js_array \<Rightarrow> 'k \<Rightarrow> int \<Rightarrow> bool \<Rightarrow> nat \<Rightarrow> int option" where
  "probe_loop ks key h skip_null i =
     (if i < len ks then
        (let idx = js_rem (h + int i) (int (len ks)) in
         if arr_get ks idx = Key key then Some idx
         else if arr_get ks idx = Undefined then Some idx
         else if \<not> skip_null \<and> arr_get ks idx = Null then Some idx
         else probe_loop ks key h skip_null (i + 1))
      else None)"
  by pat_completeness auto
termination
  by (relation "measure (\<lambda>(ks, key, h, skip_null, i). len ks - i)") auto

declare probe_loop.simps [simp del]

definition probe :: "'k slot js_array \<Rightarrow> 'k \<Rightarrow> int \<Rightarrow> bool \<Rightarrow> int option" where
  "probe ks key h skip_null = probe_loop ks key h skip_null 0"

definition ph_lookup :: "('k, 'v) ProbingHashtable \<Rightarrow> 'k \<Rightarrow> 'v option" where
  "ph_lookup ht key =
     (let start_idx = hash ht key in
      case probe (keys ht) key start_idx True of
        None \<Rightarrow> None
      | Some idx \<Rightarrow> arr_get (values ht) idx)"

definition ph_insert ::
  "('k, 'v) ProbingHashtable \<Rightarrow> 'k \<Rightarrow> 'v \<Rightarrow> bool \<times> ('k, 'v) ProbingHashtable" where
  "ph_insert ht key v =
     (let start_idx = hash ht key in
      case probe (keys ht) key start_idx False of
        None \<Rightarrow> (False, ht)
      | Some idx0 \<Rightarrow>
          (let idx = (if arr_get (keys ht) idx0 = Null
                      then (case probe (keys ht) key idx0 True of
                              None \<Rightarrow> idx0
                            | Some key_idx \<Rightarrow> key_idx)
                      else idx0)
           in if arr_get (keys ht) idx \<noteq> Key key
              then (if entries ht = int (len (keys ht))
                    then (False, ht)
                    else (True, ht\<lparr>entries := entries ht + 1,
                                   keys := arr_set (keys ht) idx (Key key),
                                   values := arr_set (values ht) idx (Some v)\<rparr>))
              else (True, ht\<lparr>keys := arr_set (keys ht) idx (Key key),
                             values := arr_set (values ht) idx (Some v)\<rparr>)))"

definition ph_delete ::
  "('k, 'v) ProbingHashtable \<Rightarrow> 'k \<Rightarrow> 'v option \<times> ('k, 'v) ProbingHashtable" where
  "ph_delete ht key =
     (let start_idx = hash ht key in
      case probe (keys ht) key start_idx True of
        None \<Rightarrow> (None, ht)
      | Some idx \<Rightarrow>
          (if arr_get (keys ht) idx = Undefined
           then (None, ht)
           else (arr_get (values ht) idx,
                 ht\<lparr>entries := entries ht - 1,
                    keys := arr_set (keys ht) idx Null,
                    values := arr_set (values ht) idx None\<rparr>)))"

fun filterNulls :: "'k slot list \<Rightarrow> 'k list" where
  "filterNulls [] = []"
| "filterNulls (x # xs) =
     (case x of
        Undefined \<Rightarrow> filterNulls xs
      | Null \<Rightarrow> filterNulls xs
      | Key k \<Rightarrow> k # filterNulls xs)"

definition ph_keys :: "('k, 'v) ProbingHashtable \<Rightarrow> 'k list" where
  "ph_keys tab = filterNulls (build_list (\<lambda>i. arr_get (keys tab) (int i)) (len (keys tab)))"


section \<open>Notions used to state the properties\<close>

text \<open>
  The conditions under which the loop of \<^verbatim>\<open>probe\<close> returns at a slot: the slot holds the
  key, or it is \<^verbatim>\<open>undefined\<close>, or it is \<^verbatim>\<open>null\<close> and nulls are not skipped.
\<close>

definition stops :: "'k slot js_array \<Rightarrow> 'k \<Rightarrow> bool \<Rightarrow> int \<Rightarrow> bool" where
  "stops ks key skip_null idx \<longleftrightarrow>
     arr_get ks idx = Key key \<or> arr_get ks idx = Undefined \<or> (\<not> skip_null \<and> arr_get ks idx = Null)"

text \<open>The number of slots of the key array that hold a key.\<close>

fun is_key :: "'k slot \<Rightarrow> bool" where
  "is_key (Key k) = True"
| "is_key Undefined = False"
| "is_key Null = False"

definition occupied :: "'k slot js_array \<Rightarrow> nat" where
  "occupied ks = length (filter (\<lambda>i. is_key (arr_get ks (int i))) [0..<len ks])"


text \<open>The tables a client can build: \<open>ph_empty\<close>, then any insertions and deletions.\<close>

inductive ph_reachable :: "nat \<Rightarrow> ('k \<Rightarrow> int) \<Rightarrow> ('k, 'v) ProbingHashtable \<Rightarrow> bool"
  for sz :: nat and h :: "'k \<Rightarrow> int" where
  reach_empty: "ph_reachable sz h (ph_empty sz h)"
| reach_insert: "ph_reachable sz h t \<Longrightarrow> ph_reachable sz h (snd (ph_insert t key v))"
| reach_delete: "ph_reachable sz h t \<Longrightarrow> ph_reachable sz h (snd (ph_delete t key))"




text \<open>
  Sequences of operations on a chaining table, the keys they leave live, and the
  invariant of section 3: every pair sits in the bucket of its key.
\<close>

datatype ('k, 'v) ch_op = Ch_insert 'k 'v | Ch_delete 'k

fun ch_apply :: "('k, 'v) ChainingHashtable \<Rightarrow> ('k, 'v) ch_op \<Rightarrow> ('k, 'v) ChainingHashtable option" where
  "ch_apply t (Ch_insert k v) = map_option snd (ch_insert t k v)"
| "ch_apply t (Ch_delete k) = map_option snd (ch_delete t k)"

fun ch_run :: "('k, 'v) ChainingHashtable \<Rightarrow> ('k, 'v) ch_op list \<Rightarrow> ('k, 'v) ChainingHashtable option" where
  "ch_run t [] = Some t"
| "ch_run t (x # xs) = (case ch_apply t x of None \<Rightarrow> None | Some t' \<Rightarrow> ch_run t' xs)"

fun live_keys :: "'k set \<Rightarrow> ('k, 'v) ch_op list \<Rightarrow> 'k set" where
  "live_keys S [] = S"
| "live_keys S (Ch_insert k v # xs) = live_keys (insert k S) xs"
| "live_keys S (Ch_delete k # xs) = live_keys (S - {k}) xs"

definition ch_inv :: "('k, 'v) ChainingHashtable \<Rightarrow> bool" where
  "ch_inv t \<longleftrightarrow> (\<forall>i<length (arr t). \<forall>kv\<in>set (arr t ! i).
      mod_js (ch_hash t (fst kv)) (int (length (arr t))) = Some (int i))"


section \<open>The probe loop\<close>

lemma probe_loop_Some_iff:
  "probe_loop ks key h sk i = Some idx \<longleftrightarrow>
     (\<exists>j. i \<le> j \<and> j < len ks \<and> idx = js_rem (h + int j) (int (len ks)) \<and> stops ks key sk idx
          \<and> (\<forall>j'. i \<le> j' \<and> j' < j \<longrightarrow> \<not> stops ks key sk (js_rem (h + int j') (int (len ks)))))"
proof (induction ks key h sk i rule: probe_loop.induct)
  case (1 ks key h sk i)
  let ?R = "\<lambda>j. js_rem (h + int j) (int (len ks))"
  show ?case
  proof (cases "i < len ks")
    case False
    then show ?thesis by (subst probe_loop.simps) auto
  next
    case True
    show ?thesis
    proof (cases "stops ks key sk (?R i)")
      case st: True
      then have "probe_loop ks key h sk i = Some (?R i)"
        using True by (subst probe_loop.simps) (auto simp: stops_def Let_def)
      moreover have "(\<exists>j. i \<le> j \<and> j < len ks \<and> idx = ?R j \<and> stops ks key sk idx
          \<and> (\<forall>j'. i \<le> j' \<and> j' < j \<longrightarrow> \<not> stops ks key sk (?R j'))) \<longleftrightarrow> idx = ?R i"
      proof
        assume "\<exists>j. i \<le> j \<and> j < len ks \<and> idx = ?R j \<and> stops ks key sk idx
          \<and> (\<forall>j'. i \<le> j' \<and> j' < j \<longrightarrow> \<not> stops ks key sk (?R j'))"
        then obtain j where j: "i \<le> j" "idx = ?R j" 
          "\<forall>j'. i \<le> j' \<and> j' < j \<longrightarrow> \<not> stops ks key sk (?R j')" by blast
        have "j = i"
        proof (rule ccontr)
          assume "j \<noteq> i"
          then have "i < j" using j(1) by simp
          then show False using j(3) st by blast
        qed
        then show "idx = ?R i" using j(2) by simp
      next
        assume "idx = ?R i"
        then show "\<exists>j. i \<le> j \<and> j < len ks \<and> idx = ?R j \<and> stops ks key sk idx
          \<and> (\<forall>j'. i \<le> j' \<and> j' < j \<longrightarrow> \<not> stops ks key sk (?R j'))"
          using True st by (intro exI[of _ i]) auto
      qed
      ultimately show ?thesis by auto
    next
      case nst: False
      then have step: "probe_loop ks key h sk i = probe_loop ks key h sk (i + 1)"
        using True by (subst probe_loop.simps) (auto simp: stops_def Let_def)
      have IH: "probe_loop ks key h sk (i + 1) = Some idx \<longleftrightarrow>
         (\<exists>j. i + 1 \<le> j \<and> j < len ks \<and> idx = ?R j \<and> stops ks key sk idx
          \<and> (\<forall>j'. i + 1 \<le> j' \<and> j' < j \<longrightarrow> \<not> stops ks key sk (?R j')))"
        using "1.IH"[OF True refl] nst by (auto simp: stops_def)
      have "(\<exists>j. i + 1 \<le> j \<and> j < len ks \<and> idx = ?R j \<and> stops ks key sk idx
          \<and> (\<forall>j'. i + 1 \<le> j' \<and> j' < j \<longrightarrow> \<not> stops ks key sk (?R j'))) \<longleftrightarrow>
            (\<exists>j. i \<le> j \<and> j < len ks \<and> idx = ?R j \<and> stops ks key sk idx
          \<and> (\<forall>j'. i \<le> j' \<and> j' < j \<longrightarrow> \<not> stops ks key sk (?R j')))" (is "?A \<longleftrightarrow> ?B")
      proof
        assume ?A
        then obtain j where j: "i + 1 \<le> j" "j < len ks" "idx = ?R j" "stops ks key sk idx"
          "\<forall>j'. i + 1 \<le> j' \<and> j' < j \<longrightarrow> \<not> stops ks key sk (?R j')" by blast
        have "\<forall>j'. i \<le> j' \<and> j' < j \<longrightarrow> \<not> stops ks key sk (?R j')"
        proof (intro allI impI)
          fix j' assume a: "i \<le> j' \<and> j' < j"
          show "\<not> stops ks key sk (?R j')"
          proof (cases "j' = i")
            case True then show ?thesis using nst by simp
          next
            case False then show ?thesis using a j(5) by simp
          qed
        qed
        then show ?B using j by (intro exI[of _ j]) auto
      next
        assume ?B
        then obtain j where j: "i \<le> j" "j < len ks" "idx = ?R j" "stops ks key sk idx"
          "\<forall>j'. i \<le> j' \<and> j' < j \<longrightarrow> \<not> stops ks key sk (?R j')" by blast
        have "j \<noteq> i" using j(3,4) nst by auto
        then have "i + 1 \<le> j" using j(1) by simp
        then show ?A using j by (intro exI[of _ j]) auto
      qed
      then show ?thesis using step IH by simp
    qed
  qed
qed

lemma probe_Some_iff:
  "probe ks key h sk = Some idx \<longleftrightarrow>
     (\<exists>j<len ks. idx = js_rem (h + int j) (int (len ks)) \<and> stops ks key sk idx
          \<and> (\<forall>j'<j. \<not> stops ks key sk (js_rem (h + int j') (int (len ks)))))"
  unfolding probe_def probe_loop_Some_iff by simp

lemma probe_None_iff:
  "probe ks key h sk = None \<longleftrightarrow> (\<forall>j<len ks. \<not> stops ks key sk (js_rem (h + int j) (int (len ks))))"
proof
  assume n: "probe ks key h sk = None"
  show "\<forall>j<len ks. \<not> stops ks key sk (js_rem (h + int j) (int (len ks)))"
  proof (rule ccontr)
    assume "\<not> ?thesis"
    then have ex: "\<exists>j. j < len ks \<and> stops ks key sk (js_rem (h + int j) (int (len ks)))" by blast
    define j where "j = (LEAST j. j < len ks \<and> stops ks key sk (js_rem (h + int j) (int (len ks))))"
    have 1: "j < len ks \<and> stops ks key sk (js_rem (h + int j) (int (len ks)))"
      unfolding j_def using ex by (rule LeastI_ex)
    have 2: "\<forall>j'<j. \<not> stops ks key sk (js_rem (h + int j') (int (len ks)))"
    proof (intro allI impI)
      fix j' assume lt: "j' < j"
      show "\<not> stops ks key sk (js_rem (h + int j') (int (len ks)))"
      proof
        assume s: "stops ks key sk (js_rem (h + int j') (int (len ks)))"
        have "j' < len ks" using lt 1 by simp
        then have "j \<le> j'" unfolding j_def using s by (intro Least_le) simp
        then show False using lt by simp
      qed
    qed
    have "probe ks key h sk = Some (js_rem (h + int j) (int (len ks)))"
      unfolding probe_Some_iff using 1 2 by blast
    then show False using n by simp
  qed
next
  assume a: "\<forall>j<len ks. \<not> stops ks key sk (js_rem (h + int j) (int (len ks)))"
  show "probe ks key h sk = None"
  proof (cases "probe ks key h sk")
    case None then show ?thesis .
  next
    case (Some idx)
    then show ?thesis unfolding probe_Some_iff using a by blast
  qed
qed

lemma js_rem_nonneg: "0 \<le> a \<Longrightarrow> js_rem a b = a mod \<bar>b\<bar>"
  by (cases "a = 0") (simp_all add: js_rem_def)

lemma js_rem_idx: "0 \<le> h \<Longrightarrow> js_rem (h + int j) (int n) = (h + int j) mod int n"
  using js_rem_nonneg[of "h + int j" "int n"] by simp

lemma probe_stops: "probe ks key h sk = Some idx \<Longrightarrow> stops ks key sk idx"
  unfolding probe_Some_iff by blast

lemma probe_in_range:
  assumes "0 \<le> h" "probe ks key h sk = Some idx"
  shows "0 \<le> idx \<and> idx < int (len ks)"
proof -
  from assms(2) obtain j where j: "j < len ks" "idx = js_rem (h + int j) (int (len ks))"
    unfolding probe_Some_iff by blast
  have "0 < int (len ks)" using j(1) by simp
  then show ?thesis using j(2) assms(1) by (simp add: js_rem_idx)
qed

text \<open>No new stopping slot, and the slot found still stops: the probe finds the same slot.\<close>
lemma probe_mono:
  assumes p: "probe ks key h sk = Some idx"
      and l: "len ks' = len ks"
      and q: "stops ks' key' sk' idx"
      and sub: "\<And>s. stops ks' key' sk' s \<Longrightarrow> stops ks key sk s"
  shows "probe ks' key' h sk' = Some idx"
proof -
  from p obtain j where j: "j < len ks" "idx = js_rem (h + int j) (int (len ks))"
      "\<forall>j'<j. \<not> stops ks key sk (js_rem (h + int j') (int (len ks)))"
    unfolding probe_Some_iff by blast
  have "\<forall>j'<j. \<not> stops ks' key' sk' (js_rem (h + int j') (int (len ks)))"
    using j(3) sub by blast
  then show ?thesis unfolding probe_Some_iff l using j(1,2) q by blast
qed

lemma probe_cong:
  assumes l: "len ks' = len ks"
      and eq: "\<And>s. stops ks' key' sk' s = stops ks key sk s"
  shows "probe ks' key' h sk' = probe ks key h sk"
proof (cases "probe ks key h sk")
  case None
  then have "probe ks' key' h sk' = None" unfolding probe_None_iff l eq .
  then show ?thesis using None by simp
next
  case (Some idx)
  have q: "stops ks' key' sk' idx" using probe_stops[OF Some] eq by simp
  have "probe ks' key' h sk' = Some idx"
    by (rule probe_mono[OF Some l q]) (simp add: eq)
  then show ?thesis using Some by simp
qed





section \<open>Arrays and the number of occupied slots\<close>

lemma arr_get_set: "arr_get (arr_set a i v) j = (if j = i then v else arr_get a j)"
  by (simp add: arr_get_def arr_set_def)



lemma occupied_card: "occupied ks = card {i. i < len ks \<and> is_key (arr_get ks (int i))}"
proof -
  have "{i. i < length [0..<len ks] \<and> is_key (arr_get ks (int ([0..<len ks] ! i)))}
        = {i. i < len ks \<and> is_key (arr_get ks (int i))}"
    by auto
  then show ?thesis
    unfolding occupied_def length_filter_conv_card by simp
qed



lemma occupied_le: "occupied ks \<le> len ks"
  unfolding occupied_def using length_filter_le[of _ "[0..<len ks]"] by simp

lemma occupied_full:
  assumes "occupied ks = len ks" "0 \<le> s" "s < int (len ks)"
  shows "is_key (arr_get ks s)"
proof -
  obtain x where x: "s = int x" using assms(2) by (rule nonneg_int_cases)
  have xl: "x < len ks" using assms(3) x by simp
  have "card {i. i < len ks \<and> is_key (arr_get ks (int i))} = card {i. i < len ks}"
    using assms(1) unfolding occupied_card by simp
  moreover have "{i. i < len ks \<and> is_key (arr_get ks (int i))} \<subseteq> {i. i < len ks}" by blast
  ultimately have "{i. i < len ks \<and> is_key (arr_get ks (int i))} = {i. i < len ks}"
    by (intro card_subset_eq) simp_all
  then have "x \<in> {i. i < len ks \<and> is_key (arr_get ks (int i))}" using xl by blast
  then show ?thesis using x by simp
qed


section \<open>Insertion into the probing table\<close>


lemma stops_True_iff: "stops ks key True s \<longleftrightarrow> arr_get ks s = Key key \<or> arr_get ks s = Undefined"
  by (simp add: stops_def)






lemma ph_insert_False_unchanged: "ph_insert t k v = (False, t') \<Longrightarrow> t' = t"
  by (auto simp: ph_insert_def Let_def split: option.splits if_splits)


section \<open>The invariant of the probing table\<close>










lemma filterNulls_concat:
  "filterNulls xs = concat (map (\<lambda>x. case x of Key k \<Rightarrow> [k] | _ \<Rightarrow> []) xs)"
  by (induction xs) (auto split: slot.splits)

lemma set_filterNulls: "set (filterNulls xs) = {k. Key k \<in> set xs}"
  by (induction xs) (auto split: slot.splits)

lemma set_ph_keys:
  "set (ph_keys t) = {k. \<exists>s. 0 \<le> s \<and> s < int (len (keys t)) \<and> arr_get (keys t) s = Key k}"
proof -
  have "{k. Key k \<in> (\<lambda>i. arr_get (keys t) (int i)) ` {0..<len (keys t)}}
        = {k. \<exists>s. 0 \<le> s \<and> s < int (len (keys t)) \<and> arr_get (keys t) s = Key k}" (is "?L = ?R")
  proof
    show "?L \<subseteq> ?R"
    proof
      fix k assume "k \<in> ?L"
      then obtain i where i: "i < len (keys t)" "Key k = arr_get (keys t) (int i)" by auto
      have "0 \<le> int i \<and> int i < int (len (keys t)) \<and> arr_get (keys t) (int i) = Key k"
        using i by simp
      then show "k \<in> ?R" by blast
    qed
    show "?R \<subseteq> ?L"
    proof
      fix k assume "k \<in> ?R"
      then obtain s where s: "0 \<le> s" "s < int (len (keys t))" "arr_get (keys t) s = Key k" by blast
      obtain i where i: "s = int i" using s(1) by (rule nonneg_int_cases)
      have "i \<in> {0..<len (keys t)}" using s(2) i by simp
      then show "k \<in> ?L" using s(3) i by force
    qed
  qed
  then show ?thesis by (simp add: ph_keys_def build_list_def set_filterNulls)
qed

lemma absent_slot:
  assumes "k \<notin> set (ph_keys t)" "0 \<le> s" "s < int (len (keys t))"
  shows "arr_get (keys t) s \<noteq> Key k"
  using assms unfolding set_ph_keys by blast





section \<open>The instrumented probe\<close>





section \<open>The chaining table\<close>

lemma js_rem_bounds: "0 < m \<Longrightarrow> - m < js_rem n m \<and> js_rem n m < m"
proof -
  assume m: "0 < m"
  have a: "0 \<le> \<bar>n\<bar> mod \<bar>m\<bar>" "\<bar>n\<bar> mod \<bar>m\<bar> < m" using m by simp_all
  show ?thesis
    using a by (cases "n < 0"; cases "n = 0") (simp_all add: js_rem_def)
qed

lemma js_rem_eq_mod: "0 < m \<Longrightarrow> js_rem (js_rem n m + m) m = n mod m"
proof -
  assume m: "0 < m"
  have b: "0 \<le> js_rem n m + m" using js_rem_bounds[OF m, of n] by simp
  have "js_rem (js_rem n m + m) m = (js_rem n m + m) mod m"
    using js_rem_nonneg[OF b, of m] m by simp
  also have "\<dots> = js_rem n m mod m" by simp
  also have "\<dots> = n mod m"
  proof (cases "n < 0")
    case True
    then have "js_rem n m = - ((- n) mod m)" using m by (simp add: js_rem_def)
    then show ?thesis by (simp add: mod_minus_eq)
  next
    case False
    then show ?thesis using js_rem_nonneg[of n m] m by simp
  qed
  finally show ?thesis .
qed

lemma mod_js_pos: "0 < m \<Longrightarrow> mod_js n m = Some (n mod m)"
  by (simp add: mod_js_def js_rem_eq_mod)

lemma bucket_index:
  assumes "arr t \<noteq> []"
  shows "\<exists>i<length (arr t). mod_js (ch_hash t key) (int (length (arr t))) = Some (int i)"
proof -
  let ?n = "int (length (arr t))"
  have n: "0 < ?n" using assms by simp
  have "0 \<le> ch_hash t key mod ?n" "ch_hash t key mod ?n < ?n" using n by simp_all
  then obtain i where i: "ch_hash t key mod ?n = int i" "i < length (arr t)"
    by (metis nonneg_int_cases of_nat_less_iff)
  then show ?thesis using mod_js_pos[OF n] by auto
qed

lemma scan_None_iff: "scan xs key = None \<longleftrightarrow> key \<notin> fst ` set xs"
  by (induction xs) auto

lemma scan_Some_mem: "scan xs key = Some v \<Longrightarrow> (key, v) \<in> set xs"
  by (induction xs) (auto split: if_splits)


lemma map_fst_replace:
  "map fst (map (\<lambda>kv. if key = fst kv then (key, v) else kv) xs) = map fst xs"
  by (induction xs) auto

lemma ch_keys_set: "set (ch_keys t) = {k. \<exists>b\<in>set (arr t). k \<in> fst ` set b}"
proof -
  have "build_list (\<lambda>i. arr t ! i) (length (arr t)) = arr t"
    unfolding build_list_def by (rule map_nth)
  then show ?thesis by (auto simp: ch_keys_def flatten_def)
qed

lemma ch_keys_buckets: "set (ch_keys t) = (\<Union>i<length (arr t). fst ` set (arr t ! i))"
proof
  show "set (ch_keys t) \<subseteq> (\<Union>i<length (arr t). fst ` set (arr t ! i))"
  proof
    fix k assume "k \<in> set (ch_keys t)"
    then obtain b where b: "b \<in> set (arr t)" "k \<in> fst ` set b" unfolding ch_keys_set by blast
    from b(1) obtain i where "i < length (arr t)" "arr t ! i = b" unfolding in_set_conv_nth by blast
    then show "k \<in> (\<Union>i<length (arr t). fst ` set (arr t ! i))" using b(2) by blast
  qed
  show "(\<Union>i<length (arr t). fst ` set (arr t ! i)) \<subseteq> set (ch_keys t)"
  proof
    fix k assume "k \<in> (\<Union>i<length (arr t). fst ` set (arr t ! i))"
    then obtain i where i: "i < length (arr t)" "k \<in> fst ` set (arr t ! i)" by blast
    have "arr t ! i \<in> set (arr t)" using i(1) by simp
    then show "k \<in> set (ch_keys t)" unfolding ch_keys_set using i(2) by blast
  qed
qed

text \<open>One operation on an invariant table.\<close>

lemma ch_insert_step:
  assumes ne: "arr t \<noteq> []" and inv: "ch_inv t"
  shows "\<exists>b t'. ch_insert t k v = Some (b, t') \<and> ch_inv t' \<and> length (arr t') = length (arr t)
           \<and> set (ch_keys t') = insert k (set (ch_keys t))"
proof -
  obtain i where i: "i < length (arr t)" "mod_js (ch_hash t k) (int (length (arr t))) = Some (int i)"
    using bucket_index[OF ne] by blast
  let ?new = "if scan (arr t ! i) k = None then (k, v) # arr t ! i
              else map (\<lambda>kv. if k = fst kv then (k, v) else kv) (arr t ! i)"
  let ?t' = "t\<lparr>arr := (arr t)[i := ?new]\<rparr>"
  have r: "ch_insert t k v = Some (scan (arr t ! i) k \<noteq> None, ?t')"
    using i by (simp add: ch_insert_def)
  have fs: "fst ` set ?new = insert k (fst ` set (arr t ! i))"
  proof (cases "scan (arr t ! i) k = None")
    case True then show ?thesis by simp
  next
    case False
    then have m: "k \<in> fst ` set (arr t ! i)" by (simp add: scan_None_iff)
    have "set (map fst ?new) = set (map fst (arr t ! i))"
      using False by (simp only: if_False map_fst_replace)
    then show ?thesis using m by auto
  qed
  have inv': "ch_inv ?t'"
    unfolding ch_inv_def
  proof (intro allI impI ballI)
    fix j kv assume j: "j < length (arr ?t')" and kv: "kv \<in> set (arr ?t' ! j)"
    show "mod_js (ch_hash ?t' (fst kv)) (int (length (arr ?t'))) = Some (int j)"
    proof (cases "j = i")
      case True
      then have "fst kv \<in> fst ` set ?new" using kv i(1) by simp
      then have "fst kv = k \<or> fst kv \<in> fst ` set (arr t ! i)" unfolding fs by simp
      then show ?thesis
      proof
        assume "fst kv = k" then show ?thesis using i True by simp
      next
        assume "fst kv \<in> fst ` set (arr t ! i)"
        then obtain kv' where "kv' \<in> set (arr t ! i)" "fst kv' = fst kv" by auto
        then show ?thesis using inv i(1) True unfolding ch_inv_def by fastforce
      qed
    next
      case False
      then have "kv \<in> set (arr t ! j)" using kv by simp
      then show ?thesis using inv j unfolding ch_inv_def by simp
    qed
  qed
  have ks: "set (ch_keys ?t') = insert k (set (ch_keys t))"
  proof -
    have "(\<Union>j<length (arr t). fst ` set ((arr t)[i := ?new] ! j))
          = insert k (\<Union>j<length (arr t). fst ` set (arr t ! j))" (is "?L = ?R")
    proof
      show "?L \<subseteq> ?R"
      proof
        fix x assume "x \<in> ?L"
        then obtain j where j: "j < length (arr t)" "x \<in> fst ` set ((arr t)[i := ?new] ! j)" by blast
        show "x \<in> ?R"
        proof (cases "j = i")
          case True
          then have "x \<in> insert k (fst ` set (arr t ! i))" using j i(1) fs by simp
          then show ?thesis using i(1) by blast
        next
          case False
          then show ?thesis using j by auto
        qed
      qed
      show "?R \<subseteq> ?L"
      proof
        fix x assume "x \<in> ?R"
        then have "x = k \<or> (\<exists>j<length (arr t). x \<in> fst ` set (arr t ! j))" by blast
        then show "x \<in> ?L"
        proof
          assume "x = k"
          then have "x \<in> fst ` set ((arr t)[i := ?new] ! i)" using i(1) fs by simp
          then show ?thesis using i(1) by blast
        next
          assume "\<exists>j<length (arr t). x \<in> fst ` set (arr t ! j)"
          then obtain j where j: "j < length (arr t)" "x \<in> fst ` set (arr t ! j)" by blast
          show ?thesis
          proof (cases "j = i")
            case True
            then have "x \<in> fst ` set ((arr t)[i := ?new] ! i)" using j i(1) fs by simp
            then show ?thesis using i(1) by blast
          next
            case False
            then have "x \<in> fst ` set ((arr t)[i := ?new] ! j)" using j by simp
            then show ?thesis using j(1) by blast
          qed
        qed
      qed
    qed
    then show ?thesis unfolding ch_keys_buckets by simp
  qed
  have "length (arr ?t') = length (arr t)" by simp
  then show ?thesis using r inv' ks by blast
qed

lemma ch_inv_bucket:
  assumes "ch_inv t" "j < length (arr t)" "k \<in> fst ` set (arr t ! j)"
      and "mod_js (ch_hash t k) (int (length (arr t))) = Some (int i)"
  shows "j = i"
proof -
  from assms(3) obtain kv where kv: "kv \<in> set (arr t ! j)" "fst kv = k" by auto
  have "mod_js (ch_hash t (fst kv)) (int (length (arr t))) = Some (int j)"
    using assms(1,2) kv(1) unfolding ch_inv_def by blast
  then show ?thesis using assms(4) kv(2) by simp
qed

lemma ch_delete_step:
  assumes ne: "arr t \<noteq> []" and inv: "ch_inv t"
  shows "\<exists>b t'. ch_delete t k = Some (b, t') \<and> ch_inv t' \<and> length (arr t') = length (arr t)
           \<and> set (ch_keys t') = set (ch_keys t) - {k}"
proof -
  obtain i where i: "i < length (arr t)" "mod_js (ch_hash t k) (int (length (arr t))) = Some (int i)"
    using bucket_index[OF ne] by blast
  show ?thesis
  proof (cases "scan (arr t ! i) k = None")
    case True
    then have r: "ch_delete t k = Some (False, t)" using i by (simp add: ch_delete_def)
    have "k \<notin> set (ch_keys t)"
    proof
      assume "k \<in> set (ch_keys t)"
      then obtain j where j: "j < length (arr t)" "k \<in> fst ` set (arr t ! j)"
        unfolding ch_keys_buckets by blast
      then have "j = i" using ch_inv_bucket[OF inv j i(2)] by simp
      then show False using j(2) True by (simp add: scan_None_iff)
    qed
    then have "set (ch_keys t) = set (ch_keys t) - {k}" by simp
    then show ?thesis using r inv by blast
  next
    case False
    let ?new = "filter (\<lambda>kv. fst kv \<noteq> k) (arr t ! i)"
    let ?t' = "t\<lparr>arr := (arr t)[i := ?new]\<rparr>"
    have r: "ch_delete t k = Some (True, ?t')" using i False by (simp add: ch_delete_def)
    have sub: "set (arr ?t' ! j) \<subseteq> set (arr t ! j)" if "j < length (arr t)" for j
      using that by (cases "j = i") auto
    have inv': "ch_inv ?t'"
      unfolding ch_inv_def
    proof (intro allI impI ballI)
      fix j kv assume j: "j < length (arr ?t')" and kv: "kv \<in> set (arr ?t' ! j)"
      have "j < length (arr t)" using j by simp
      then have "kv \<in> set (arr t ! j)" using sub kv by blast
      then show "mod_js (ch_hash ?t' (fst kv)) (int (length (arr ?t'))) = Some (int j)"
        using inv j unfolding ch_inv_def by simp
    qed
    have ks: "set (ch_keys ?t') = set (ch_keys t) - {k}"
    proof
      show "set (ch_keys ?t') \<subseteq> set (ch_keys t) - {k}"
      proof
        fix x assume "x \<in> set (ch_keys ?t')"
        then obtain j where j: "j < length (arr t)" "x \<in> fst ` set (arr ?t' ! j)"
          unfolding ch_keys_buckets by auto
        have in_old: "x \<in> fst ` set (arr t ! j)" using sub[OF j(1)] j(2) by blast
        have "x \<noteq> k"
        proof
          assume xk: "x = k"
          then have "j = i" using ch_inv_bucket[OF inv j(1) _ i(2)] in_old by simp
          then have "k \<in> fst ` set ?new" using j xk i(1) by simp
          then show False by auto
        qed
        then show "x \<in> set (ch_keys t) - {k}" unfolding ch_keys_buckets using j(1) in_old by blast
      qed
      show "set (ch_keys t) - {k} \<subseteq> set (ch_keys ?t')"
      proof
        fix x assume "x \<in> set (ch_keys t) - {k}"
        then obtain j where j: "j < length (arr t)" "x \<in> fst ` set (arr t ! j)" and xk: "x \<noteq> k"
          unfolding ch_keys_buckets by blast
        have "x \<in> fst ` set (arr ?t' ! j)"
        proof (cases "j = i")
          case True
          from j(2) obtain kv where kv: "kv \<in> set (arr t ! i)" "fst kv = x" using True by auto
          then have "kv \<in> set ?new" using xk by simp
          then have "x \<in> fst ` set ?new" using kv(2) by force
          then show ?thesis using True i(1) by simp
        next
          case False
          then show ?thesis using j by simp
        qed
        moreover have "j < length (arr ?t')" using j(1) by simp
        ultimately show "x \<in> set (ch_keys ?t')" unfolding ch_keys_buckets by blast
      qed
    qed
    have "length (arr ?t') = length (arr t)" by simp
    then show ?thesis using r inv' ks by blast
  qed
qed

lemma ch_run_keys:
  assumes "arr t \<noteq> []" "ch_inv t"
  shows "\<exists>t'. ch_run t xs = Some t' \<and> set (ch_keys t') = live_keys (set (ch_keys t)) xs"
  using assms
proof (induction xs arbitrary: t)
  case Nil
  then show ?case by simp
next
  case (Cons x xs)
  show ?case
  proof (cases x)
    case (Ch_insert k v)
    obtain b t1 where s: "ch_insert t k v = Some (b, t1)" "ch_inv t1" "length (arr t1) = length (arr t)"
        "set (ch_keys t1) = insert k (set (ch_keys t))"
      using ch_insert_step[OF Cons.prems, of k v] by blast
    have ne: "arr t1 \<noteq> []" using s(3) Cons.prems(1) by auto
    obtain t' where "ch_run t1 xs = Some t'" "set (ch_keys t') = live_keys (set (ch_keys t1)) xs"
      using Cons.IH[OF ne s(2)] by blast
    then show ?thesis using s(1,4) Ch_insert by simp
  next
    case (Ch_delete k)
    obtain b t1 where s: "ch_delete t k = Some (b, t1)" "ch_inv t1" "length (arr t1) = length (arr t)"
        "set (ch_keys t1) = set (ch_keys t) - {k}"
      using ch_delete_step[OF Cons.prems, of k] by blast
    have ne: "arr t1 \<noteq> []" using s(3) Cons.prems(1) by auto
    obtain t' where "ch_run t1 xs = Some t'" "set (ch_keys t') = live_keys (set (ch_keys t1)) xs"
      using Cons.IH[OF ne s(2)] by blast
    then show ?thesis using s(1,4) Ch_delete by simp
  qed
qed

lemma ch_empty_inv: "ch_inv (ch_empty sz h)"
  by (simp add: ch_inv_def ch_empty_def)

lemma ch_empty_keys: "set (ch_keys (ch_empty sz h)) = {}"
  by (simp add: ch_keys_set ch_empty_def)



section \<open>The properties\<close>

text \<open>Unfolding the operations on a concrete table.\<close>

lemmas eval_defs = ph_insert_def ph_delete_def ph_lookup_def ph_empty_def probe_def probe_loop.simps
  new_Array_def arr_get_def arr_set_def js_rem_def Let_def ph_keys_def build_list_def



text \<open>
  C2. Two-phase insertion and tombstones. When the first probe of \<open>ph_insert\<close> stops at a
  \<^verbatim>\<open>null\<close> slot, the code takes the index of the confirmation probe whenever that probe
  returns a slot, whether the slot holds the key or is \<^verbatim>\<open>undefined\<close>. In a table of capacity
  4 with the identity hash, after inserting 0 and 4 and deleting 4, the insertion of 8
  stops at the \<^verbatim>\<open>null\<close> slot 1, the confirmation probe returns the \<^verbatim>\<open>undefined\<close> slot 2, and
  the key 8 is written at slot 2: slot 1 stays \<^verbatim>\<open>null\<close>, the deleted slot is not reused.
\<close>

theorem tombstone_not_reused:
  "probe (keys (snd (ph_delete (snd (ph_insert (snd (ph_insert (ph_empty 4 (\<lambda>k::int. k)) 0 ''x'')) 4 ''y'')) 4)))
      8 (hash (snd (ph_delete (snd (ph_insert (snd (ph_insert (ph_empty 4 (\<lambda>k::int. k)) 0 ''x'')) 4 ''y'')) 4)) 8) False
     = Some 1
   \<and> arr_get (keys (snd (ph_delete (snd (ph_insert (snd (ph_insert (ph_empty 4 (\<lambda>k::int. k)) 0 ''x'')) 4 ''y'')) 4))) 1
     = Null
   \<and> probe (keys (snd (ph_delete (snd (ph_insert (snd (ph_insert (ph_empty 4 (\<lambda>k::int. k)) 0 ''x'')) 4 ''y'')) 4)))
      8 1 True = Some 2
   \<and> arr_get (keys (snd (ph_delete (snd (ph_insert (snd (ph_insert (ph_empty 4 (\<lambda>k::int. k)) 0 ''x'')) 4 ''y'')) 4))) 2
     = Undefined
   \<and> arr_get (keys (snd (ph_insert
        (snd (ph_delete (snd (ph_insert (snd (ph_insert (ph_empty 4 (\<lambda>k::int. k)) 0 ''x'')) 4 ''y'')) 4))
        8 ''w''))) 1 = Null
   \<and> arr_get (keys (snd (ph_insert
        (snd (ph_delete (snd (ph_insert (snd (ph_insert (ph_empty 4 (\<lambda>k::int. k)) 0 ''x'')) 4 ''y'')) 4))
        8 ''w''))) 2 = Key 8"
  by (simp add: eval_defs)



text \<open>
  C4. Deletion. On a probing table whose hash of the key is non-negative: if probing
  from the hash with nulls skipped returns a slot that holds the key, \<open>ph_delete\<close> returns
  the value stored at that slot, sets the key slot to \<^verbatim>\<open>null\<close>, the value slot to
  \<^verbatim>\<open>undefined\<close> and decrements \<open>entries\<close> by one; if no slot of the array holds the key,
  it returns \<^verbatim>\<open>undefined\<close> and leaves the table as it was.
\<close>

theorem ph_delete_semantics:
  assumes "0 \<le> hash t k"
  shows "(\<forall>idx. probe (keys t) k (hash t k) True = Some idx \<and> arr_get (keys t) idx = Key k \<longrightarrow>
            ph_delete t k = (arr_get (values t) idx,
                             t\<lparr>entries := entries t - 1,
                                keys := arr_set (keys t) idx Null,
                                values := arr_set (values t) idx None\<rparr>)
            \<and> 0 \<le> idx \<and> idx < int (len (keys t))
            \<and> arr_get (keys (snd (ph_delete t k))) idx = Null
            \<and> arr_get (values (snd (ph_delete t k))) idx = None
            \<and> entries (snd (ph_delete t k)) = entries t - 1)
       \<and> (k \<notin> set (ph_keys t) \<longrightarrow> ph_delete t k = (None, t))"
proof (intro conjI allI impI)
  fix idx assume a: "probe (keys t) k (hash t k) True = Some idx \<and> arr_get (keys t) idx = Key k"
  then show d: "ph_delete t k = (arr_get (values t) idx,
                             t\<lparr>entries := entries t - 1,
                                keys := arr_set (keys t) idx Null,
                                values := arr_set (values t) idx None\<rparr>)"
    by (simp add: ph_delete_def)
  have p: "probe (keys t) k (hash t k) True = Some idx" using a by simp
  show "0 \<le> idx" using probe_in_range[OF assms p] by simp
  show "idx < int (len (keys t))" using probe_in_range[OF assms p] by simp
  show "arr_get (keys (snd (ph_delete t k))) idx = Null" unfolding d by (simp add: arr_get_set)
  show "arr_get (values (snd (ph_delete t k))) idx = None" unfolding d by (simp add: arr_get_set)
  show "entries (snd (ph_delete t k)) = entries t - 1" unfolding d by simp
next
  assume absent: "k \<notin> set (ph_keys t)"
  show "ph_delete t k = (None, t)"
  proof (cases "probe (keys t) k (hash t k) True")
    case None
    then show ?thesis by (simp add: ph_delete_def)
  next
    case (Some idx)
    have rg: "0 \<le> idx \<and> idx < int (len (keys t))" using probe_in_range[OF assms Some] .
    have nk: "arr_get (keys t) idx \<noteq> Key k" using absent_slot[OF absent] rg by blast
    have "stops (keys t) k True idx" using probe_stops[OF Some] .
    then have "arr_get (keys t) idx = Undefined" using nk by (simp add: stops_def)
    then show ?thesis using Some by (simp add: ph_delete_def)
  qed
qed

theorem ph_delete_semantics_witness:
  "0 \<le> hash (snd (ph_insert (ph_empty 3 (\<lambda>k::int. k)) 4 ''x'')) 4
   \<and> probe (keys (snd (ph_insert (ph_empty 3 (\<lambda>k::int. k)) 4 ''x''))) 4
        (hash (snd (ph_insert (ph_empty 3 (\<lambda>k::int. k)) 4 ''x'')) 4) True = Some 1
   \<and> arr_get (keys (snd (ph_insert (ph_empty 3 (\<lambda>k::int. k)) 4 ''x''))) 1 = Key 4
   \<and> (7::int) \<notin> set (ph_keys (snd (ph_insert (ph_empty 3 (\<lambda>k::int. k)) 4 ''x'')))
   \<and> fst (ph_delete (snd (ph_insert (ph_empty 3 (\<lambda>k::int. k)) 4 ''x'')) 4) = Some ''x''
   \<and> arr_get (keys (snd (ph_delete (snd (ph_insert (ph_empty 3 (\<lambda>k::int. k)) 4 ''x'')) 4))) 1 = Null
   \<and> entries (snd (ph_delete (snd (ph_insert (ph_empty 3 (\<lambda>k::int. k)) 4 ''x'')) 4)) = 0
   \<and> ph_delete (snd (ph_insert (ph_empty 3 (\<lambda>k::int. k)) 4 ''x'')) 7
       = (None, snd (ph_insert (ph_empty 3 (\<lambda>k::int. k)) 4 ''x''))"
proof -
  let ?t = "snd (ph_insert (ph_empty 3 (\<lambda>k::int. k)) 4 ''x'') :: (int, string) ProbingHashtable"
  have h4: "0 \<le> hash ?t 4" by (simp add: eval_defs)
  have h7: "0 \<le> hash ?t 7" by (simp add: eval_defs)
  have p: "probe (keys ?t) 4 (hash ?t 4) True = Some 1" by (simp add: eval_defs)
  have g: "arr_get (keys ?t) 1 = Key 4" by (simp add: eval_defs)
  have a: "(7::int) \<notin> set (ph_keys ?t)" by (simp add: eval_defs upt_rec)
  have v: "arr_get (values ?t) 1 = Some ''x''" by (simp add: eval_defs)
  have e: "entries ?t = 1" by (simp add: eval_defs)
  have d4: "ph_delete ?t 4 = (arr_get (values ?t) 1,
                             ?t\<lparr>entries := entries ?t - 1,
                                keys := arr_set (keys ?t) 1 Null,
                                values := arr_set (values ?t) 1 None\<rparr>)
            \<and> arr_get (keys (snd (ph_delete ?t 4))) 1 = Null
            \<and> entries (snd (ph_delete ?t 4)) = entries ?t - 1"
    using ph_delete_semantics[OF h4] p g by blast
  have d7: "ph_delete ?t 7 = (None, ?t)" using ph_delete_semantics[OF h7] a by blast
  have f: "fst (ph_delete ?t 4) = Some ''x''" using d4 v by simp
  have en: "entries (snd (ph_delete ?t 4)) = 0" using d4 e by simp
  show ?thesis using h4 p g a f d4 en d7 by blast
qed



text \<open>
  C6. Chaining insertion. With at least one bucket, \<open>ch_insert t k v\<close> takes the bucket at
  index \<open>mod_js (hash k) capacity\<close>, which is inside the array. If no pair of the bucket
  has key \<open>k\<close> it prepends \<open>(k, v)\<close> and returns false. Otherwise it returns true and the
  new bucket has the same length and the same keys in the same order, with \<open>(k, v)\<close> at
  the positions of key \<open>k\<close> and every other pair unchanged.
\<close>

theorem ch_insert_semantics:
  assumes "arr t \<noteq> []"
  shows "\<exists>index. mod_js (ch_hash t k) (int (length (arr t))) = Some index
           \<and> 0 \<le> index \<and> index < int (length (arr t))
           \<and> (k \<notin> fst ` set (arr t ! nat index) \<longrightarrow>
                ch_insert t k v
                  = Some (False, t\<lparr>arr := (arr t)[nat index := (k, v) # arr t ! nat index]\<rparr>))
           \<and> (k \<in> fst ` set (arr t ! nat index) \<longrightarrow>
                (\<exists>bucket. ch_insert t k v = Some (True, t\<lparr>arr := (arr t)[nat index := bucket]\<rparr>)
                   \<and> length bucket = length (arr t ! nat index)
                   \<and> map fst bucket = map fst (arr t ! nat index)
                   \<and> (\<forall>j<length bucket.
                        bucket ! j = (if fst (arr t ! nat index ! j) = k then (k, v)
                                      else arr t ! nat index ! j))))"
proof -
  obtain i where i: "i < length (arr t)" "mod_js (ch_hash t k) (int (length (arr t))) = Some (int i)"
    using bucket_index[OF assms] by blast
  let ?b = "map (\<lambda>kv. if k = fst kv then (k, v) else kv) (arr t ! i)"
  have 1: "k \<notin> fst ` set (arr t ! i) \<longrightarrow>
      ch_insert t k v = Some (False, t\<lparr>arr := (arr t)[i := (k, v) # arr t ! i]\<rparr>)"
    using i by (simp add: ch_insert_def scan_None_iff)
  have 2: "ch_insert t k v = Some (True, t\<lparr>arr := (arr t)[i := ?b]\<rparr>)"
    if "k \<in> fst ` set (arr t ! i)"
    using i that scan_None_iff[of "arr t ! i" k] by (simp add: ch_insert_def)
  have 3: "length ?b = length (arr t ! i)" by simp
  have 4: "map fst ?b = map fst (arr t ! i)" by (rule map_fst_replace)
  have 5: "\<forall>j<length ?b. ?b ! j = (if fst (arr t ! i ! j) = k then (k, v) else arr t ! i ! j)"
    by auto
  have 6: "k \<in> fst ` set (arr t ! i) \<longrightarrow>
                (\<exists>bucket. ch_insert t k v = Some (True, t\<lparr>arr := (arr t)[i := bucket]\<rparr>)
                   \<and> length bucket = length (arr t ! i)
                   \<and> map fst bucket = map fst (arr t ! i)
                   \<and> (\<forall>j<length bucket.
                        bucket ! j = (if fst (arr t ! i ! j) = k then (k, v)
                                      else arr t ! i ! j)))"
    using 2 3 4 5 by blast
  have n: "nat (int i) = i" by simp
  show ?thesis
  proof (intro exI[of _ "int i"] conjI)
    show "mod_js (ch_hash t k) (int (length (arr t))) = Some (int i)" by (rule i(2))
    show "0 \<le> int i" by simp
    show "int i < int (length (arr t))" using i(1) by simp
    show "k \<notin> fst ` set (arr t ! nat (int i)) \<longrightarrow>
                ch_insert t k v
                  = Some (False, t\<lparr>arr := (arr t)[nat (int i) := (k, v) # arr t ! nat (int i)]\<rparr>)"
      unfolding n by (rule 1)
    show "k \<in> fst ` set (arr t ! nat (int i)) \<longrightarrow>
                (\<exists>bucket. ch_insert t k v = Some (True, t\<lparr>arr := (arr t)[nat (int i) := bucket]\<rparr>)
                   \<and> length bucket = length (arr t ! nat (int i))
                   \<and> map fst bucket = map fst (arr t ! nat (int i))
                   \<and> (\<forall>j<length bucket.
                        bucket ! j = (if fst (arr t ! nat (int i) ! j) = k then (k, v)
                                      else arr t ! nat (int i) ! j)))"
      unfolding n by (rule 6)
  qed
qed

theorem ch_insert_semantics_witness:
  "arr (\<lparr>arr = [[], [(9, ''b''), (5, ''a'')], [], []], ch_hash = (\<lambda>k::int. k)\<rparr>) \<noteq> []
   \<and> mod_js 5 4 = Some 1 \<and> mod_js (-3) 4 = Some 1
   \<and> (\<exists>bucket.
        ch_insert \<lparr>arr = [[], [(9, ''b''), (5, ''a'')], [], []], ch_hash = (\<lambda>k::int. k)\<rparr> 5 ''c''
          = Some (True, \<lparr>arr = [[], bucket, [], []], ch_hash = (\<lambda>k::int. k)\<rparr>)
        \<and> map fst bucket = [9, 5] \<and> bucket ! 0 = (9, ''b'') \<and> bucket ! 1 = (5, ''c''))
   \<and> ch_insert \<lparr>arr = [[], [(9, ''b''), (5, ''a'')], [], []], ch_hash = (\<lambda>k::int. k)\<rparr> (-3) ''d''
       = Some (False, \<lparr>arr = [[], [(-3, ''d''), (9, ''b''), (5, ''a'')], [], []], ch_hash = (\<lambda>k::int. k)\<rparr>)"
proof -
  let ?t = "\<lparr>arr = [[], [(9, ''b''), (5, ''a'')], [], []], ch_hash = (\<lambda>k::int. k)\<rparr>"
  have ne: "arr ?t \<noteq> []" by simp
  have m5: "mod_js 5 4 = Some 1" by (simp add: mod_js_def js_rem_def)
  have m3: "mod_js (-3) 4 = Some 1" by (simp add: mod_js_def js_rem_def)
  from ch_insert_semantics[OF ne, of 5 "''c''"] obtain index where
      i1: "mod_js (ch_hash ?t 5) (int (length (arr ?t))) = Some index" and
      i2: "5 \<in> fst ` set (arr ?t ! nat index) \<longrightarrow>
                (\<exists>bucket. ch_insert ?t 5 ''c'' = Some (True, ?t\<lparr>arr := (arr ?t)[nat index := bucket]\<rparr>)
                   \<and> length bucket = length (arr ?t ! nat index)
                   \<and> map fst bucket = map fst (arr ?t ! nat index)
                   \<and> (\<forall>j<length bucket.
                        bucket ! j = (if fst (arr ?t ! nat index ! j) = 5 then (5, ''c'')
                                      else arr ?t ! nat index ! j)))"
    by blast
  have ix: "index = 1" using i1 m5 by simp
  have "5 \<in> fst ` set (arr ?t ! nat 1)" by simp
  then obtain bucket where
      b1: "ch_insert ?t 5 ''c'' = Some (True, ?t\<lparr>arr := (arr ?t)[nat 1 := bucket]\<rparr>)" and
      b2: "length bucket = length (arr ?t ! nat 1)" and
      b3: "map fst bucket = map fst (arr ?t ! nat 1)" and
      b4: "\<forall>j<length bucket.
                        bucket ! j = (if fst (arr ?t ! nat 1 ! j) = 5 then (5, ''c'')
                                      else arr ?t ! nat 1 ! j)"
    using i2 unfolding ix by blast
  have l: "length bucket = 2" using b2 by simp
  have c0: "bucket ! 0 = (9, ''b'')" using b4 l by simp
  have c1: "bucket ! 1 = (5, ''c'')" using b4 l by simp
  have c2: "map fst bucket = [9, 5]" using b3 by simp
  have c3: "ch_insert ?t 5 ''c'' = Some (True, \<lparr>arr = [[], bucket, [], []], ch_hash = (\<lambda>k::int. k)\<rparr>)"
    using b1 by simp
  from ch_insert_semantics[OF ne, of "-3" "''d''"] obtain index' where
      j1: "mod_js (ch_hash ?t (-3)) (int (length (arr ?t))) = Some index'" and
      j2: "(-3) \<notin> fst ` set (arr ?t ! nat index') \<longrightarrow>
                ch_insert ?t (-3) ''d''
                  = Some (False, ?t\<lparr>arr := (arr ?t)[nat index' := (-3, ''d'') # arr ?t ! nat index']\<rparr>)"
    by blast
  have jx: "index' = 1" using j1 m3 by simp
  have "(-3) \<notin> fst ` set (arr ?t ! nat 1)" by simp
  then have "ch_insert ?t (-3) ''d''
                  = Some (False, ?t\<lparr>arr := (arr ?t)[nat 1 := (-3, ''d'') # arr ?t ! nat 1]\<rparr>)"
    using j2 unfolding jx by blast
  then have d: "ch_insert ?t (-3) ''d''
       = Some (False, \<lparr>arr = [[], [(-3, ''d''), (9, ''b''), (5, ''a'')], [], []], ch_hash = (\<lambda>k::int. k)\<rparr>)"
    by simp
  have e: "\<exists>bucket.
        ch_insert ?t 5 ''c''
          = Some (True, \<lparr>arr = [[], bucket, [], []], ch_hash = (\<lambda>k::int. k)\<rparr>)
        \<and> map fst bucket = [9, 5] \<and> bucket ! 0 = (9, ''b'') \<and> bucket ! 1 = (5, ''c'')"
    using c0 c1 c2 c3 by (intro exI[of _ bucket]) simp
  show ?thesis
    by (intro conjI) (rule ne, rule m5, rule m3, rule e, rule d)
qed

text \<open>
  C7. Keys. As a set, \<open>ch_keys\<close> is the set of the keys of all pairs of all buckets; after
  any sequence of insertions and deletions on an empty table with at least one bucket
  it is the set of keys inserted and not deleted since. \<open>ph_keys\<close> lists, in the order of
  the array indices, the keys of the slots that are neither \<^verbatim>\<open>undefined\<close> nor \<^verbatim>\<open>null\<close>.
\<close>

theorem keys_live_set:
  "set (ch_keys ct) = {k. \<exists>b\<in>set (arr ct). \<exists>v. (k, v) \<in> set b}
   \<and> (0 < sz \<longrightarrow> (\<exists>t'. ch_run (ch_empty sz h) ops = Some t' \<and> set (ch_keys t') = live_keys {} ops))
   \<and> ph_keys pt = concat (map (\<lambda>i. case arr_get (keys pt) (int i) of Key k \<Rightarrow> [k] | _ \<Rightarrow> [])
                              [0..<len (keys pt)])
   \<and> set (ph_keys pt) = {k. \<exists>i<len (keys pt). arr_get (keys pt) (int i) = Key k}"
proof (intro conjI impI)
  show "set (ch_keys ct) = {k. \<exists>b\<in>set (arr ct). \<exists>v. (k, v) \<in> set b}"
    unfolding ch_keys_set by force
  show "\<exists>t'. ch_run (ch_empty sz h) ops = Some t' \<and> set (ch_keys t') = live_keys {} ops"
    if "0 < sz"
  proof -
    have ne: "arr (ch_empty sz h :: ('c, 'd) ChainingHashtable) \<noteq> []"
      using that by (simp add: ch_empty_def)
    show ?thesis using ch_run_keys[OF ne ch_empty_inv, of ops] by (simp add: ch_empty_keys)
  qed
  show "ph_keys pt = concat (map (\<lambda>i. case arr_get (keys pt) (int i) of Key k \<Rightarrow> [k] | _ \<Rightarrow> [])
                              [0..<len (keys pt)])"
    by (simp add: ph_keys_def build_list_def filterNulls_concat comp_def)
  show "set (ph_keys pt) = {k. \<exists>i<len (keys pt). arr_get (keys pt) (int i) = Key k}"
  proof -
    have "{k. \<exists>s. 0 \<le> s \<and> s < int (len (keys pt)) \<and> arr_get (keys pt) s = Key k}
          = {k. \<exists>i<len (keys pt). arr_get (keys pt) (int i) = Key k}" (is "?L = ?R")
    proof
      show "?L \<subseteq> ?R"
      proof
        fix k assume "k \<in> ?L"
        then obtain s where s: "0 \<le> s" "s < int (len (keys pt))" "arr_get (keys pt) s = Key k" by blast
        obtain i where i: "s = int i" using s(1) by (rule nonneg_int_cases)
        have "i < len (keys pt) \<and> arr_get (keys pt) (int i) = Key k" using s i by simp
        then show "k \<in> ?R" by blast
      qed
      show "?R \<subseteq> ?L"
      proof
        fix k assume "k \<in> ?R"
        then obtain i where i: "i < len (keys pt)" "arr_get (keys pt) (int i) = Key k" by blast
        have "0 \<le> int i \<and> int i < int (len (keys pt)) \<and> arr_get (keys pt) (int i) = Key k"
          using i by simp
        then show "k \<in> ?L" by blast
      qed
    qed
    then show ?thesis unfolding set_ph_keys .
  qed
qed

theorem keys_live_set_witness:
  "(0::nat) < 4
   \<and> (\<exists>t'. ch_run (ch_empty 4 (\<lambda>k::int. k)) [Ch_insert 5 ''a'', Ch_insert 9 ''b'', Ch_delete 5] = Some t'
          \<and> set (ch_keys t') = {9})"
proof -
  have h: "(0::nat) < 4" by simp
  have l: "live_keys {} [Ch_insert (5::int) ''a'', Ch_insert 9 ''b'', Ch_delete 5] = {9}" by auto
  from keys_live_set[where sz=4 and h="\<lambda>k::int. k"
      and ops="[Ch_insert 5 ''a'', Ch_insert 9 ''b'', Ch_delete 5]"
      and ct="ch_empty 4 (\<lambda>k::int. k) :: (int, string) ChainingHashtable"
      and pt="ph_empty 3 int :: (nat, string) ProbingHashtable"]
  have "\<exists>t'. ch_run (ch_empty 4 (\<lambda>k::int. k)) [Ch_insert 5 ''a'', Ch_insert 9 ''b'', Ch_delete 5] = Some t'
          \<and> set (ch_keys t') = live_keys {} [Ch_insert (5::int) ''a'', Ch_insert 9 ''b'', Ch_delete 5]"
    using h by blast
  then show ?thesis unfolding l using h by blast
qed







end
